theory Spec2Isabelle
  imports Main "HOL-Library.Word"
begin

section \<open>JavaScript strings\<close>

text \<open>
  A JavaScript string is a sequence of UTF-16 code units.  ASCII text is written with
  \<open>js ''...''\<close>; other characters are given by their code unit
  (U+7530 and U+4E2D are the two characters of the name used in the examples).
\<close>

type_synonym jschar = "16 word"
type_synonym jsstring = "jschar list"

definition js :: "string \<Rightarrow> jsstring" where
  "js s = map of_char s"

text \<open>\<open>LineTerminator\<close>, \<open>WhiteSpace\<close> and the digits, as ECMAScript defines them;
  \<open>\s\<close> and \<open>trim\<close> both use white space together with the line terminators.\<close>

definition isLineTerminator :: "jschar \<Rightarrow> bool" where
  "isLineTerminator c = (c = 0x0A \<or> c = 0x0D \<or> c = 0x2028 \<or> c = 0x2029)"

definition isWhiteSpace :: "jschar \<Rightarrow> bool" where
  "isWhiteSpace c =
     (c = 0x09 \<or> c = 0x0B \<or> c = 0x0C \<or> c = 0x20 \<or> c = 0xA0 \<or> c = 0x1680 \<or>
      (0x2000 \<le> c \<and> c \<le> 0x200A) \<or> c = 0x202F \<or> c = 0x205F \<or> c = 0x3000 \<or>
      c = 0xFEFF)"

definition isSpace :: "jschar \<Rightarrow> bool" where
  "isSpace c = (isWhiteSpace c \<or> isLineTerminator c)"

definition isDigit :: "jschar \<Rightarrow> bool" where
  "isDigit c = (0x30 \<le> c \<and> c \<le> 0x39)"

definition trim :: "jsstring \<Rightarrow> jsstring" where
  "trim s = rev (dropWhile isSpace (rev (dropWhile isSpace s)))"

definition padStart :: "nat \<Rightarrow> jschar \<Rightarrow> jsstring \<Rightarrow> jsstring" where
  "padStart n c s = replicate (n - length s) c @ s"

definition padEnd :: "nat \<Rightarrow> jschar \<Rightarrow> jsstring \<Rightarrow> jsstring" where
  "padEnd n c s = s @ replicate (n - length s) c"

text \<open>\<open>s.split('\n')\<close>: the pieces between line feeds; the empty string gives one
  empty piece.\<close>

fun split_nl :: "jsstring \<Rightarrow> jsstring list" where
  "split_nl [] = [[]]"
| "split_nl (c # cs) =
     (if c = 0x0A then [] # split_nl cs
      else (case split_nl cs of [] \<Rightarrow> [[c]] | l # ls \<Rightarrow> (c # l) # ls))"

fun includesStr :: "jsstring \<Rightarrow> jsstring \<Rightarrow> bool" where
  "includesStr [] sub = (sub = [])"
| "includesStr (c # cs) sub = (take (length sub) (c # cs) = sub \<or> includesStr cs sub)"



section \<open>Regular expressions\<close>

text \<open>
  The patterns of the program use character classes, literals, \<open>^\<close>, capture groups,
  alternation, an optional non-capturing group, and quantifiers applied to a single
  character class.  The matcher below is the backtracking matcher of ECMAScript for this
  fragment: it returns every way the pattern can match at the current position, in the
  order in which backtracking tries them, so that the head of the list is the match that
  \<open>exec\<close> reports.  A state is the flag "at the start of the input", the rest of the input
  and the captures so far; a result is the text matched and the captures after it.
  \<open>Rep greedy lo hi cl\<close> is the class \<open>cl\<close> repeated \<open>lo\<close> to \<open>hi\<close> times
  (\<open>None\<close>: no upper bound), greedy or lazy; \<open>Opt r\<close> is the greedy \<open>(?:r)?\<close>, which
  first tries \<open>r\<close>, rejecting an empty match of it, and then the empty match.  No group
  number occurs twice in a pattern, so captures never have to be reset.
\<close>

datatype catom = CChar jschar | CDigit | CSpace

datatype cclass = Pos "catom list" | Neg "catom list" | Dot

fun amem :: "catom \<Rightarrow> jschar \<Rightarrow> bool" where
  "amem (CChar d) c = (c = d)"
| "amem CDigit c = isDigit c"
| "amem CSpace c = isSpace c"

fun cmem :: "cclass \<Rightarrow> jschar \<Rightarrow> bool" where
  "cmem (Pos as) c = list_ex (\<lambda>a. amem a c) as"
| "cmem (Neg as) c = (\<not> list_ex (\<lambda>a. amem a c) as)"
| "cmem Dot c = (\<not> isLineTerminator c)"

datatype regex =
    Eps
  | Bol
  | One cclass
  | Str jsstring
  | Rep bool nat "nat option" cclass
  | Opt regex
  | Grp nat regex
  | Seq regex regex
  | Alt regex regex

type_synonym caps = "nat \<rightharpoonup> jsstring"

text \<open>All splits of the input after a run of class characters, shortest first.\<close>

fun splits :: "cclass \<Rightarrow> jsstring \<Rightarrow> jsstring list" where
  "splits cl [] = [[]]"
| "splits cl (x # xs) = [] # (if cmem cl x then map ((#) x) (splits cl xs) else [])"

definition rep :: "bool \<Rightarrow> nat \<Rightarrow> nat option \<Rightarrow> cclass \<Rightarrow> jsstring \<Rightarrow> jsstring list" where
  "rep greedy lo hi cl s =
     (let cands = filter (\<lambda>w. lo \<le> length w \<and> (case hi of None \<Rightarrow> True | Some h \<Rightarrow> length w \<le> h))
                         (splits cl s)
      in if greedy then rev cands else cands)"

fun m :: "regex \<Rightarrow> bool \<times> jsstring \<times> caps \<Rightarrow> (jsstring \<times> caps) list" where
  "m Eps (b, s, c) = [([], c)]"
| "m Bol (b, s, c) = (if b then [([], c)] else [])"
| "m (One cl) (b, s, c) =
     (case s of [] \<Rightarrow> [] | x # xs \<Rightarrow> if cmem cl x then [([x], c)] else [])"
| "m (Str w) (b, s, c) = (if take (length w) s = w then [(w, c)] else [])"
| "m (Rep greedy lo hi cl) (b, s, c) = map (\<lambda>w. (w, c)) (rep greedy lo hi cl s)"
| "m (Opt r) (b, s, c) = filter (\<lambda>(w, c'). w \<noteq> []) (m r (b, s, c)) @ [([], c)]"
| "m (Grp g r) (b, s, c) = map (\<lambda>(w, c'). (w, c'(g \<mapsto> w))) (m r (b, s, c))"
| "m (Seq r1 r2) (b, s, c) =
     concat (map (\<lambda>(w1, c1).
                map (\<lambda>(w2, c2). (w1 @ w2, c2))
                    (m r2 (b \<and> w1 = [], drop (length w1) s, c1)))
             (m r1 (b, s, c)))"
| "m (Alt r1 r2) (b, s, c) = m r1 (b, s, c) @ m r2 (b, s, c)"

fun cat :: "regex list \<Rightarrow> regex" where
  "cat [] = Eps"
| "cat [r] = r"
| "cat (r # rs) = Seq r (cat rs)"

text \<open>The result of \<open>String.prototype.match\<close> with a pattern that has no \<open>g\<close> flag:
  the index of the match, the matched text (element 0) and the groups; an unmatched
  group is \<open>undefined\<close>, here \<open>None\<close>.\<close>

record rmatch =
  index :: nat
  matched :: jsstring
  groups :: caps

fun search :: "regex \<Rightarrow> bool \<Rightarrow> nat \<Rightarrow> jsstring \<Rightarrow> rmatch option" where
  "search r b i s =
     (case m r (b, s, Map.empty) of
        (w, c) # _ \<Rightarrow> Some \<lparr>index = i, matched = w, groups = c\<rparr>
      | [] \<Rightarrow> (case s of [] \<Rightarrow> None | _ # s' \<Rightarrow> search r False (Suc i) s'))"

definition match :: "jsstring \<Rightarrow> regex \<Rightarrow> rmatch option" where
  "match s r = search r True 0 s"

text \<open>Errors.  Calling a method on \<open>undefined\<close> throws a \<open>TypeError\<close>; storing
  \<open>undefined\<close> in a field declared as a string is reported as \<open>UndefinedValue\<close>.\<close>

datatype jserror = TypeError | UndefinedValue

definition bindE :: "jserror + 'a \<Rightarrow> ('a \<Rightarrow> jserror + 'b) \<Rightarrow> jserror + 'b" where
  "bindE x f = (case x of Inl e \<Rightarrow> Inl e | Inr v \<Rightarrow> f v)"

definition grp :: "rmatch \<Rightarrow> nat \<Rightarrow> jserror + jsstring" where
  "grp mt k = (case groups mt k of None \<Rightarrow> Inl TypeError | Some w \<Rightarrow> Inr w)"

section \<open>The date in a file name (\<open>extractDate\<close>, lib/utils.ts)\<close>

definition digit :: cclass where
  "digit = Pos [CDigit]"

definition chr :: "char \<Rightarrow> regex" where
  "chr c = One (Pos [CChar (of_char c)])"

definition d4 :: regex where "d4 = Rep True 4 (Some 4) digit"
definition d2 :: regex where "d2 = Rep True 2 (Some 2) digit"
definition d12 :: regex where "d12 = Rep True 1 (Some 2) digit"



definition zero :: jschar where "zero = 0x30"







section \<open>Transcript entries\<close>

text \<open>\<open>TranscriptEntry\<close>; the field \<open>text\<close> of the source is \<open>entryText\<close> here (\<open>text\<close> is a keyword).\<close>

record TranscriptEntry =
  speaker :: jsstring
  startTime :: jsstring
  endTime :: jsstring
  entryText :: jsstring

section \<open>The patterns of the text parser\<close>

definition space :: cclass where
  "space = Pos [CSpace]"

definition sp0 :: regex where "sp0 = Rep True 0 None space"
definition sp1 :: regex where "sp1 = Rep True 1 None space"
definition d13 :: regex where "d13 = Rep True 1 (Some 3) digit"

text \<open>\<open>^(.+?)\s+\d{1,2}\s*:\s*\d{1,2}\<close>\<close>

definition reSpeakerTime :: regex where
  "reSpeakerTime =
     cat [Bol, Grp 1 (Rep False 1 None Dot), sp1, d12, sp0, chr CHR '':'', sp0, d12]"

text \<open>\<open>^(.+?)[\s:\<dots>]+\<close>, the class being white space, the colon and the
  full-width colon U+FF1A.\<close>

definition reSpeakerSep :: regex where
  "reSpeakerSep =
     cat [Bol, Grp 1 (Rep False 1 None Dot),
          Rep True 1 None (Pos [CSpace, CChar 0x3A, CChar 0xFF1A])]"

text \<open>\<open>(\d{1,2})\s*:\s*(\d{1,2})(?:\s*:\s*(\d{1,2}))?(?:\.(\d{1,3}))?\<close>, with its four
  groups numbered from \<open>k + 1\<close>.\<close>

definition timePart :: "nat \<Rightarrow> regex" where
  "timePart k =
     cat [Grp (k + 1) d12, sp0, chr CHR '':'', sp0, Grp (k + 2) d12,
          Opt (cat [sp0, chr CHR '':'', sp0, Grp (k + 3) d12]),
          Opt (cat [chr CHR ''.'', Grp (k + 4) d13])]"

text \<open>The separator class of a range: hyphen, tilde, wave dash U+301C, white space,
  ideographic space U+3000.\<close>

definition rangeSep :: cclass where
  "rangeSep = Pos [CChar 0x2D, CChar 0x7E, CChar 0x301C, CSpace, CChar 0x3000]"

definition reTimeRange :: regex where
  "reTimeRange = cat [Bol, timePart 0, Rep True 1 None rangeSep, timePart 4]"

definition reTime :: regex where
  "reTime = cat [Bol, timePart 0]"

section \<open>The text parser (\<open>parseTxtFile\<close>, and \<open>parseDocxFile\<close> after extraction)\<close>

text \<open>A string is truthy when it is defined and not empty.\<close>

definition truthy :: "jsstring option \<Rightarrow> bool" where
  "truthy x = (case x of None \<Rightarrow> False | Some w \<Rightarrow> w \<noteq> [])"

text \<open>The time built from the four groups of a \<open>timePart\<close>: with a third group the
  fields are hour, minute, second; without it the hour is \<open>00\<close>.\<close>

definition timeOf :: "rmatch \<Rightarrow> nat \<Rightarrow> jserror + jsstring" where
  "timeOf mt k =
     bindE (if truthy (groups mt (k + 3)) then grp mt (k + 1) else Inr (js ''00'')) (\<lambda>h.
     bindE (if truthy (groups mt (k + 3)) then grp mt (k + 2) else grp mt (k + 1)) (\<lambda>mi.
     bindE (if truthy (groups mt (k + 3)) then grp mt (k + 3) else grp mt (k + 2)) (\<lambda>s.
     bindE (if truthy (groups mt (k + 4))
            then bindE (grp mt (k + 4)) (\<lambda>w. Inr (padEnd 3 zero w))
            else Inr (js ''000'')) (\<lambda>ms.
       Inr (padStart 2 zero h @ js '':'' @ padStart 2 zero mi @ js '':'' @
            padStart 2 zero s @ js ''.'' @ ms)))))"

text \<open>\<open>startTime\<close> and \<open>endTime\<close> of a content string: the range pattern first, then
  the single time.\<close>

definition timesOf :: "jsstring \<Rightarrow> jserror + (jsstring \<times> jsstring)" where
  "timesOf content =
     (case match content reTimeRange of
        Some mt \<Rightarrow> bindE (timeOf mt 0) (\<lambda>st. bindE (timeOf mt 4) (\<lambda>et. Inr (st, et)))
      | None \<Rightarrow>
         (case match content reTime of
            Some mt \<Rightarrow> bindE (timeOf mt 0) (\<lambda>st. Inr (st, []))
          | None \<Rightarrow> Inr ([], [])))"

text \<open>\<open>s.replace(r, '')\<close> for a pattern without the \<open>g\<close> flag removes the first match.\<close>

definition removeFirst :: "jsstring \<Rightarrow> regex \<Rightarrow> jsstring" where
  "removeFirst s r =
     (case match s r of
        None \<Rightarrow> s
      | Some mt \<Rightarrow> take (index mt) s @ drop (index mt + length (matched mt)) s)"

definition speakerMatchOf :: "jsstring \<Rightarrow> rmatch option" where
  "speakerMatchOf line =
     (case match line reSpeakerTime of
        Some mt \<Rightarrow> Some mt
      | None \<Rightarrow> match line reSpeakerSep)"

text \<open>One turn of the loop over the lines: the accumulator \<open>parsedTranscript\<close> before
  and after.\<close>

definition txtStep :: "TranscriptEntry list \<Rightarrow> jsstring \<Rightarrow> jserror + TranscriptEntry list" where
  "txtStep parsedTranscript rawLine =
     (let line = trim rawLine in
      case speakerMatchOf line of
        Some sm \<Rightarrow>
          (case grp sm 1 of
             Inl e \<Rightarrow> Inl e
           | Inr g1 \<Rightarrow>
              (let content = trim (drop (length g1) line) in
               case timesOf content of
                 Inl e \<Rightarrow> Inl e
               | Inr (st, et) \<Rightarrow>
                  Inr (parsedTranscript @
                       [\<lparr>speaker = trim g1, startTime = st, endTime = et,
                         entryText = trim (removeFirst (removeFirst content reTimeRange) reTime)\<rparr>])))
      | None \<Rightarrow>
          (if length parsedTranscript > 0
           then Inr (butlast parsedTranscript @
                     [(last parsedTranscript)\<lparr>entryText := entryText (last parsedTranscript) @ line\<rparr>])
           else Inr (parsedTranscript @
                     [\<lparr>speaker = [], startTime = [], endTime = [], entryText = line\<rparr>])))"

fun txtLoop :: "jsstring list \<Rightarrow> TranscriptEntry list \<Rightarrow> jserror + TranscriptEntry list" where
  "txtLoop [] parsedTranscript = Inr parsedTranscript"
| "txtLoop (l # ls) parsedTranscript =
     (case txtStep parsedTranscript l of
        Inl e \<Rightarrow> Inl e
      | Inr acc \<Rightarrow> txtLoop ls acc)"

definition txtLines :: "jsstring \<Rightarrow> jsstring list" where
  "txtLines text = filter (\<lambda>line. trim line \<noteq> []) (split_nl text)"

definition parseTxtFile :: "jsstring \<Rightarrow> jserror + TranscriptEntry list" where
  "parseTxtFile text = txtLoop (txtLines text) []"

text \<open>\<open>parseDocxFile\<close> runs the same statements on the text that the extraction
  library returns.\<close>

definition parseDocxFile :: "jsstring \<Rightarrow> jserror + TranscriptEntry list" where
  "parseDocxFile text = txtLoop (txtLines text) []"

section \<open>The caption parser (\<open>parseVttFile\<close>)\<close>

definition arrow :: jsstring where
  "arrow = js ''-->''"

definition dplus :: regex where "dplus = Rep True 1 None digit"

text \<open>\<open>\d+:\d+:\d+\.\d+\<close>\<close>

definition vttStamp :: regex where
  "vttStamp = cat [dplus, chr CHR '':'', dplus, chr CHR '':'', dplus, chr CHR ''.'', dplus]"

definition reVttTime :: regex where
  "reVttTime = cat [Grp 1 vttStamp, sp1, Str arrow, sp1, Grp 2 vttStamp]"

text \<open>\<open><v\s+([^>]+)>\<close>\<close>

definition notGt :: cclass where
  "notGt = Neg [CChar 0x3E]"

definition reVttSpeaker :: regex where
  "reVttSpeaker = cat [Str (js ''<v''), sp1, Grp 1 (Rep True 1 None notGt), chr CHR ''>'']"

text \<open>\<open><v\s+[^>]+>|<\/v>\<close>, used with the \<open>g\<close> flag\<close>

definition reVttTag :: regex where
  "reVttTag =
     Alt (cat [Str (js ''<v''), sp1, Rep True 1 None notGt, chr CHR ''>''])
         (Str (js ''</v>''))"

text \<open>\<open>s.replace(r, '')\<close> with the \<open>g\<close> flag removes every match, each search starting
  where the previous match ended (one character further after an empty match).  The flag
  tells whether the search starts at the beginning of the input.\<close>

function removeAllFrom :: "bool \<Rightarrow> jsstring \<Rightarrow> regex \<Rightarrow> jsstring" where
  "removeAllFrom b s r =
     (case search r b 0 s of
        None \<Rightarrow> s
      | Some mt \<Rightarrow>
          (if s = [] then []
           else if matched mt = []
             then take (Suc (index mt)) s @ removeAllFrom False (drop (Suc (index mt)) s) r
             else take (index mt) s @
                  removeAllFrom False (drop (index mt + length (matched mt)) s) r))"
  by pat_completeness auto
termination
  by (relation "measure (\<lambda>(b, s, r). length s)") auto

definition removeAll :: "jsstring \<Rightarrow> regex \<Rightarrow> jsstring" where
  "removeAll s r = removeAllFrom True s r"

text \<open>The sentinel for a cue without a speaker tag (U+4E0D U+660E).\<close>

definition unknownSpeaker :: jsstring where
  "unknownSpeaker = [0x4E0D, 0x660E]"

text \<open>Speaker and text of a payload line.\<close>

definition vttPayload :: "jsstring \<Rightarrow> jserror + (jsstring \<times> jsstring)" where
  "vttPayload contentLine =
     (case match contentLine reVttSpeaker of
        None \<Rightarrow> Inr (unknownSpeaker, contentLine)
      | Some sm \<Rightarrow>
          bindE (if truthy (groups sm 1) then grp sm 1
                 else (case groups sm 2 of None \<Rightarrow> Inl UndefinedValue | Some w \<Rightarrow> Inr w))
            (\<lambda>sp. Inr (sp, trim (removeAll contentLine reVttTag))))"

text \<open>The merge of a cue into the accumulator.\<close>

definition vttPush ::
  "TranscriptEntry list \<Rightarrow> jsstring \<Rightarrow> jsstring \<Rightarrow> jsstring \<Rightarrow> jsstring \<Rightarrow> TranscriptEntry list" where
  "vttPush parsedTranscript sp st et tx =
     (if parsedTranscript \<noteq> [] \<and> speaker (last parsedTranscript) = sp
      then butlast parsedTranscript @
           [(last parsedTranscript)\<lparr>endTime := et, entryText := entryText (last parsedTranscript) @ tx\<rparr>]
      else parsedTranscript @ [\<lparr>speaker = sp, startTime = st, endTime = et, entryText = tx\<rparr>])"

text \<open>The second loop, from the line at index \<open>i\<close> on: \<open>lines\<close> is the rest of the
  array.\<close>

fun vttLoop :: "jsstring list \<Rightarrow> TranscriptEntry list \<Rightarrow> jserror + TranscriptEntry list" where
  "vttLoop [] parsedTranscript = Inr parsedTranscript"
| "vttLoop (l # ls) parsedTranscript =
     (if includesStr (trim l) arrow then
        (case match (trim l) reVttTime of
           None \<Rightarrow> vttLoop ls parsedTranscript
         | Some tm \<Rightarrow>
            (case (groups tm 1, groups tm 2) of
               (Some st, Some et) \<Rightarrow>
                 (case ls of
                    [] \<Rightarrow> Inr parsedTranscript
                  | p # ls' \<Rightarrow>
                     (case vttPayload (trim p) of
                        Inl e \<Rightarrow> Inl e
                      | Inr (sp, tx) \<Rightarrow> vttLoop ls' (vttPush parsedTranscript sp st et tx)))
             | _ \<Rightarrow> Inl UndefinedValue))
      else vttLoop ls parsedTranscript)"

definition parseVttFile :: "jsstring \<Rightarrow> jserror + TranscriptEntry list" where
  "parseVttFile text =
     vttLoop (dropWhile (\<lambda>l. \<not> includesStr l arrow) (split_nl text)) []"

section \<open>Auxiliary notions for the proofs\<close>

text \<open>The groups that occur in a pattern, the groups that every match of it sets, and the
  patterns all of whose groups can only capture strings with a given property.\<close>

fun grps :: "regex \<Rightarrow> nat set" where
  "grps (Grp g r) = insert g (grps r)"
| "grps (Opt r) = grps r"
| "grps (Seq r1 r2) = grps r1 \<union> grps r2"
| "grps (Alt r1 r2) = grps r1 \<union> grps r2"
| "grps _ = {}"

fun must :: "regex \<Rightarrow> nat set" where
  "must (Grp g r) = insert g (must r)"
| "must (Seq r1 r2) = must r1 \<union> must r2"
| "must (Alt r1 r2) = must r1 \<inter> must r2"
| "must _ = {}"

fun capsOK :: "(nat \<Rightarrow> jsstring \<Rightarrow> bool) \<Rightarrow> regex \<Rightarrow> bool" where
  "capsOK Q (Grp g r) = (capsOK Q r \<and> (\<forall>b s c w c'. (w, c') \<in> set (m r (b, s, c)) \<longrightarrow> Q g w))"
| "capsOK Q (Opt r) = capsOK Q r"
| "capsOK Q (Seq r1 r2) = (capsOK Q r1 \<and> capsOK Q r2)"
| "capsOK Q (Alt r1 r2) = (capsOK Q r1 \<and> capsOK Q r2)"
| "capsOK Q _ = True"

text \<open>What the groups of a time pattern capture: one or two digits, and one to three
  digits for the milliseconds (groups 4 and 8).\<close>

definition timeQ :: "nat \<Rightarrow> jsstring \<Rightarrow> bool" where
  "timeQ g u = (u \<noteq> [] \<and> list_all isDigit u \<and> length u \<le> (if g = 4 \<or> g = 8 then 3 else 2))"

text \<open>The canonical time string \<open>HH:MM:SS.mmm\<close>: 12 characters, digits everywhere but
  at the colons in positions 2 and 5 and the period in position 8.\<close>

definition canonical :: "jsstring \<Rightarrow> bool" where
  "canonical t =
     (length t = 12 \<and> t ! 2 = 0x3A \<and> t ! 5 = 0x3A \<and> t ! 8 = 0x2E \<and>
      list_all (\<lambda>i. isDigit (t ! i)) [0, 1, 3, 4, 6, 7, 9, 10, 11])"

text \<open>What every entry of the text parser satisfies, and what the accumulator of its loop
  satisfies.\<close>

definition timeOK :: "jsstring \<Rightarrow> bool" where
  "timeOK t = (t = [] \<or> canonical t)"

definition entryOK :: "TranscriptEntry \<Rightarrow> bool" where
  "entryOK e = (timeOK (startTime e) \<and> timeOK (endTime e) \<and> (endTime e \<noteq> [] \<longrightarrow> startTime e \<noteq> []))"

definition txtInv :: "TranscriptEntry list \<Rightarrow> bool" where
  "txtInv acc = ((\<forall>e\<in>set acc. entryOK e) \<and> (\<forall>e\<in>set (tl acc). speaker e \<noteq> []))"

text \<open>What every entry of the caption parser satisfies.\<close>

definition vttInv :: "TranscriptEntry list \<Rightarrow> bool" where
  "vttInv acc = list_all (\<lambda>e. speaker e \<noteq> [] \<and> startTime e \<noteq> []) acc"

text \<open>Inputs of the examples: the name and the phrases of the specification's examples, as
  code units.\<close>

definition exTanaka :: jsstring where "exTanaka = [0x7530, 0x4E2D]"

definition exKonnichiwa :: jsstring where "exKonnichiwa = [0x3053, 0x3093, 0x306B, 0x3061, 0x306F]"

definition exOhayou :: jsstring where "exOhayou = [0x304A, 0x306F, 0x3088, 0x3046]"

definition exGenki :: jsstring where "exGenki = [0x5143, 0x6C17, 0x3067, 0x3059, 0x304B]"

text \<open>The words of C9, "the original document with blank lines removed": the non-blank lines
  joined by line feeds.\<close>

definition joinLines :: "jsstring list \<Rightarrow> jsstring" where
  "joinLines ls = (case ls of [] \<Rightarrow> [] | l # ls' \<Rightarrow> l @ concat (map (\<lambda>x. 0x0A # x) ls'))"

definition removeBlankLines :: "jsstring \<Rightarrow> jsstring" where
  "removeBlankLines text = joinLines (txtLines text)"



text \<open>The words of C4: the canonical string by the number of components.\<close>

definition componentRule :: "jsstring \<Rightarrow> jsstring \<Rightarrow> jsstring option \<Rightarrow> jsstring option \<Rightarrow> jsstring" where
  "componentRule g1 g2 g3 g4 =
     (case g3 of
        None \<Rightarrow> js ''00'' @ js '':'' @ padStart 2 zero g1 @ js '':'' @ padStart 2 zero g2
      | Some c \<Rightarrow> padStart 2 zero g1 @ js '':'' @ padStart 2 zero g2 @ js '':'' @ padStart 2 zero c)
     @ js ''.'' @ (case g4 of None \<Rightarrow> js ''000'' | Some f \<Rightarrow> padEnd 3 zero f)"





text \<open>A text with two speakers and a continuation line; two cues, the second without a
  speaker tag.\<close>

definition exTwoSpeakers :: jsstring where
  "exTwoSpeakers = js ''A 1:00 x\<newline>B 2:00 y\<newline>zz''"

definition exTwoCues :: jsstring where
  "exTwoCues = js ''00:00:01.000 --> 00:00:02.000\<newline><v Bob>hi\<newline>00:00:03.000 --> 00:00:04.000\<newline>yes''"

section \<open>Properties of the matcher\<close>

declare search.simps [simp del]

lemma splits_props:
  "w \<in> set (splits cl s) \<Longrightarrow> (\<exists>t. s = w @ t) \<and> (\<forall>x\<in>set w. cmem cl x)"
  by (induction s arbitrary: w) (auto split: if_splits)

lemma rep_props:
  assumes "w \<in> set (rep greedy lo hi cl s)"
  shows "(\<exists>t. s = w @ t) \<and> (\<forall>x\<in>set w. cmem cl x) \<and> lo \<le> length w \<and>
         (\<forall>h. hi = Some h \<longrightarrow> length w \<le> h)"
  using assms splits_props [of w cl s]
  by (auto simp: rep_def Let_def split: if_splits option.splits)

lemma m_prefix:
  "(w, c') \<in> set (m r (b, s, c)) \<Longrightarrow> \<exists>t. s = w @ t"
proof (induction r arbitrary: b s c w c')
  case (One cl)
  then show ?case by (auto split: list.splits if_splits)
next
  case (Str u)
  then show ?case by (auto split: if_splits) (metis append_take_drop_id)
next
  case (Rep greedy lo hi cl)
  then show ?case using rep_props by auto
next
  case (Seq r1 r2)
  from Seq.prems obtain w1 c1 w2 where
    a: "(w1, c1) \<in> set (m r1 (b, s, c))" and
    b: "(w2, c') \<in> set (m r2 (b \<and> w1 = [], drop (length w1) s, c1))" and
    w: "w = w1 @ w2"
    by auto
  from Seq.IH(1) [OF a] obtain t1 where t1: "s = w1 @ t1" by blast
  from Seq.IH(2) [OF b] t1 obtain t2 where "t1 = w2 @ t2" by auto
  with t1 w show ?case by simp
qed (auto split: if_splits)

lemma m_frame:
  "(w, c') \<in> set (m r (b, s, c)) \<Longrightarrow> g \<notin> grps r \<Longrightarrow> c' g = c g"
proof (induction r arbitrary: b s c w c')
  case (Seq r1 r2)
  from Seq.prems obtain w1 c1 w2 where
    a: "(w1, c1) \<in> set (m r1 (b, s, c))" and
    b: "(w2, c') \<in> set (m r2 (b \<and> w1 = [], drop (length w1) s, c1))"
    by auto
  from Seq.IH(1) [OF a] Seq.IH(2) [OF b] Seq.prems(2) show ?case by simp
qed (auto split: if_splits list.splits)

lemma m_keeps:
  "(w, c') \<in> set (m r (b, s, c)) \<Longrightarrow> c g \<noteq> None \<Longrightarrow> c' g \<noteq> None"
proof (induction r arbitrary: b s c w c')
  case (Seq r1 r2)
  from Seq.prems obtain w1 c1 w2 where
    a: "(w1, c1) \<in> set (m r1 (b, s, c))" and
    b: "(w2, c') \<in> set (m r2 (b \<and> w1 = [], drop (length w1) s, c1))"
    by auto
  from Seq.IH(1) [OF a] Seq.IH(2) [OF b] Seq.prems(2) show ?case by simp
qed (auto split: if_splits list.splits)

lemma m_must:
  "(w, c') \<in> set (m r (b, s, c)) \<Longrightarrow> g \<in> must r \<Longrightarrow> c' g \<noteq> None"
proof (induction r arbitrary: b s c w c')
  case (Seq r1 r2)
  from Seq.prems obtain w1 c1 w2 where
    a: "(w1, c1) \<in> set (m r1 (b, s, c))" and
    b: "(w2, c') \<in> set (m r2 (b \<and> w1 = [], drop (length w1) s, c1))"
    by auto
  show ?case
  proof (cases "g \<in> must r2")
    case True
    then show ?thesis using Seq.IH(2) [OF b] by simp
  next
    case False
    with Seq.prems(2) have "g \<in> must r1" by simp
    then have "c1 g \<noteq> None" using Seq.IH(1) [OF a] by simp
    then show ?thesis using m_keeps [OF b] by simp
  qed
qed (auto split: if_splits list.splits)

lemma m_inv:
  "(w, c') \<in> set (m r (b, s, c)) \<Longrightarrow> capsOK Q r \<Longrightarrow>
   (\<And>g u. c g = Some u \<Longrightarrow> Q g u) \<Longrightarrow> c' g = Some u \<Longrightarrow> Q g u"
proof (induction r arbitrary: b s c w c' g u)
  case (Seq r1 r2)
  from Seq.prems(1) obtain w1 c1 w2 where
    a: "(w1, c1) \<in> set (m r1 (b, s, c))" and
    b: "(w2, c') \<in> set (m r2 (b \<and> w1 = [], drop (length w1) s, c1))"
    by auto
  have c1: "\<And>g u. c1 g = Some u \<Longrightarrow> Q g u"
    using Seq.IH(1) [OF a] Seq.prems(2,3) by simp
  show ?case using Seq.IH(2) [OF b _ c1 Seq.prems(4)] Seq.prems(2) by simp
next
  case (Grp h r)
  from Grp.prems(1) obtain c0 where
    a: "(w, c0) \<in> set (m r (b, s, c))" and c': "c' = c0(h \<mapsto> w)"
    by auto
  show ?case
  proof (cases "g = h")
    case True
    with c' Grp.prems(4) have "u = w" by simp
    with True a Grp.prems(2) show ?thesis by simp blast
  next
    case False
    with c' Grp.prems(4) have "c0 g = Some u" by simp
    then show ?thesis using Grp.IH [OF a _ Grp.prems(3)] Grp.prems(2) by simp
  qed
qed (auto split: if_splits list.splits)

lemma search_Some:
  "search r b i s = Some mt \<Longrightarrow>
   \<exists>b' pre s'. (matched mt, groups mt) \<in> set (m r (b', s', Map.empty)) \<and> s = pre @ s' \<and>
      index mt = i + length pre \<and> (b' \<longrightarrow> b \<and> pre = [])"
proof (induction r b i s rule: search.induct)
  case (1 r b i s)
  show ?case
  proof (cases "m r (b, s, Map.empty)")
    case Nil
    with "1.prems" obtain x s' where s: "s = x # s'" and r: "search r False (Suc i) s' = Some mt"
      by (auto simp: search.simps [of r b i s] split: list.splits)
    from "1.IH" [OF Nil s r] obtain b' pre s'' where
      "(matched mt, groups mt) \<in> set (m r (b', s'', Map.empty))" "s' = pre @ s''"
      "index mt = Suc i + length pre" "b' \<longrightarrow> False \<and> pre = []"
      by blast
    then show ?thesis using s
      by (intro exI [of _ b'] exI [of _ "x # pre"] exI [of _ s'']) auto
  next
    case (Cons a as)
    with "1.prems" have "(matched mt, groups mt) = a" "index mt = i"
      by (auto simp: search.simps [of r b i s] split: prod.splits)
    with Cons show ?thesis
      by (intro exI [of _ b] exI [of _ "[]"] exI [of _ s]) auto
  qed
qed

lemma search_Bol_False: "search (Seq Bol r) False i s = None"
  by (induction s arbitrary: i) (simp_all add: search.simps [of _ _ _ "[]"] search.simps [of _ _ _ "_ # _"])

lemma match_anchored:
  assumes "match s (Seq Bol r) = Some mt"
  shows "index mt = 0 \<and> (matched mt, groups mt) \<in> set (m r (True, s, Map.empty))"
proof -
  from assms obtain b' pre s' where
    a: "(matched mt, groups mt) \<in> set (m (Seq Bol r) (b', s', Map.empty))" and
    b: "s = pre @ s'" "index mt = 0 + length pre" "b' \<longrightarrow> True \<and> pre = []"
    unfolding match_def using search_Some by blast
  from a have b': "b'" by (cases b') auto
  with b have "s' = s" "index mt = 0" by auto
  with a b' show ?thesis by auto
qed

lemma d12_Q:
  "(w, c') \<in> set (m d12 (b, s, c)) \<Longrightarrow> w \<noteq> [] \<and> list_all isDigit w \<and> length w \<le> 2"
  using rep_props [of w True 1 "Some 2" digit s]
  by (auto simp: d12_def digit_def list_all_iff)

lemma d13_Q:
  "(w, c') \<in> set (m d13 (b, s, c)) \<Longrightarrow> w \<noteq> [] \<and> list_all isDigit w \<and> length w \<le> 3"
  using rep_props [of w True 1 "Some 3" digit s]
  by (auto simp: d13_def digit_def list_all_iff)

lemma capsOK_digits [simp]: "capsOK Q d12" "capsOK Q d13" "capsOK Q d2" "capsOK Q d4"
  by (simp_all add: d12_def d13_def d2_def d4_def)

lemma timePart_capsOK: "k = 0 \<or> k = 4 \<Longrightarrow> capsOK timeQ (timePart k)"
  by (auto simp: timePart_def timeQ_def sp0_def chr_def dest: d12_Q d13_Q)

lemma timePart_must:
  "1 \<in> must (timePart 0)" "2 \<in> must (timePart 0)" "5 \<in> must (timePart 4)" "6 \<in> must (timePart 4)"
  by (simp_all add: timePart_def)

lemma reTime_groups:
  assumes "match content reTime = Some mt"
  shows "(\<forall>g u. groups mt g = Some u \<longrightarrow> timeQ g u) \<and> groups mt 1 \<noteq> None \<and> groups mt 2 \<noteq> None"
proof -
  from assms have "match content (Seq Bol (timePart 0)) = Some mt"
    by (simp add: reTime_def)
  from match_anchored [OF this]
  have a: "(matched mt, groups mt) \<in> set (m (timePart 0) (True, content, Map.empty))"
    by blast
  have "\<And>g u. groups mt g = Some u \<Longrightarrow> timeQ g u"
    using m_inv [OF a timePart_capsOK] by simp
  moreover have "groups mt 1 \<noteq> None" "groups mt 2 \<noteq> None"
    using m_must [OF a] timePart_must by blast+
  ultimately show ?thesis by blast
qed

lemma reTimeRange_groups:
  assumes "match content reTimeRange = Some mt"
  shows "(\<forall>g u. groups mt g = Some u \<longrightarrow> timeQ g u) \<and> groups mt 1 \<noteq> None \<and> groups mt 2 \<noteq> None
         \<and> groups mt 5 \<noteq> None \<and> groups mt 6 \<noteq> None"
proof -
  let ?r = "cat [timePart 0, Rep True 1 None rangeSep, timePart 4]"
  from assms have "match content (Seq Bol ?r) = Some mt"
    by (simp add: reTimeRange_def)
  from match_anchored [OF this]
  have a: "(matched mt, groups mt) \<in> set (m ?r (True, content, Map.empty))"
    by blast
  have ok: "capsOK timeQ ?r" using timePart_capsOK by simp
  have "\<And>g u. groups mt g = Some u \<Longrightarrow> timeQ g u"
    using m_inv [OF a ok] by simp
  moreover have mu: "\<And>g. g \<in> {1, 2, 5, 6} \<Longrightarrow> g \<in> must ?r"
    using timePart_must by auto
  have "groups mt 1 \<noteq> None" "groups mt 2 \<noteq> None" "groups mt 5 \<noteq> None" "groups mt 6 \<noteq> None"
    using m_must [OF a mu] by simp_all
  ultimately show ?thesis by blast
qed

lemma isDigit_zero: "isDigit zero"
  by (simp add: isDigit_def zero_def)

lemma padStart2:
  "u \<noteq> [] \<Longrightarrow> length u \<le> 2 \<Longrightarrow> list_all isDigit u \<Longrightarrow>
   length (padStart 2 zero u) = 2 \<and> list_all isDigit (padStart 2 zero u)"
  by (auto simp: padStart_def isDigit_zero list_all_iff)

lemma padEnd3:
  "u \<noteq> [] \<Longrightarrow> length u \<le> 3 \<Longrightarrow> list_all isDigit u \<Longrightarrow>
   length (padEnd 3 zero u) = 3 \<and> list_all isDigit (padEnd 3 zero u)"
  by (auto simp: padEnd_def isDigit_zero list_all_iff)

lemma len2: "length u = 2 \<Longrightarrow> \<exists>a b. u = [a, b]"
  by (cases u; cases "tl u") auto

lemma len3: "length u = 3 \<Longrightarrow> \<exists>a b c. u = [a, b, c]"
  by (cases u; cases "tl u"; cases "tl (tl u)") auto

lemma canonicalI:
  assumes "length h = 2" "list_all isDigit h" "length mi = 2" "list_all isDigit mi"
    "length s = 2" "list_all isDigit s" "length ms = 3" "list_all isDigit ms"
  shows "canonical (h @ js '':'' @ mi @ js '':'' @ s @ js ''.'' @ ms)"
proof -
  obtain h1 h2 where h: "h = [h1, h2]" using len2 [OF assms(1)] by blast
  obtain m1 m2 where mi: "mi = [m1, m2]" using len2 [OF assms(3)] by blast
  obtain s1 s2 where s: "s = [s1, s2]" using len2 [OF assms(5)] by blast
  obtain f1 f2 f3 where ms: "ms = [f1, f2, f3]" using len3 [OF assms(7)] by blast
  show ?thesis using assms(2,4,6,8) unfolding h mi s ms
    by (simp add: canonical_def js_def)
qed

lemma js00: "length (js ''00'') = 2" "list_all isDigit (js ''00'')"
  "length (js ''000'') = 3" "list_all isDigit (js ''000'')"
  by (simp_all add: js_def isDigit_def)

lemma padStart_id: "length u = 2 \<Longrightarrow> padStart 2 c u = u"
  by (simp add: padStart_def)

lemma timeOf_ok:
  assumes inv: "\<forall>g u. groups mt g = Some u \<longrightarrow> timeQ g u"
    and k: "k = 0 \<or> k = 4"
    and g1: "groups mt (k + 1) \<noteq> None" and g2: "groups mt (k + 2) \<noteq> None"
  shows "\<exists>t. timeOf mt k = Inr t \<and> canonical t"
proof -
  from g1 obtain a where a: "groups mt (k + 1) = Some a" by blast
  from g2 obtain b where b: "groups mt (k + 2) = Some b" by blast
  have two: "length (padStart 2 zero u) = 2 \<and> list_all isDigit (padStart 2 zero u)"
    if "groups mt g = Some u" "g \<noteq> 4" "g \<noteq> 8" for g u
  proof -
    from inv that(1) have "timeQ g u" by blast
    with that(2,3) show ?thesis by (intro padStart2) (simp_all add: timeQ_def)
  qed
  from k have ne: "k + 1 \<noteq> 4" "k + 1 \<noteq> 8" "k + 2 \<noteq> 4" "k + 2 \<noteq> 8" "k + 3 \<noteq> 4" "k + 3 \<noteq> 8"
    by auto
  define ms where "ms = (case groups mt (k + 4) of None \<Rightarrow> js ''000'' | Some w \<Rightarrow> padEnd 3 zero w)"
  have ms: "length ms = 3 \<and> list_all isDigit ms"
  proof (cases "groups mt (k + 4)")
    case None
    then show ?thesis by (simp add: ms_def js00)
  next
    case (Some w)
    with inv have "timeQ (k + 4) w" by blast
    then have "w \<noteq> []" "length w \<le> 3" "list_all isDigit w" by (auto simp: timeQ_def split: if_splits)
    then show ?thesis using Some padEnd3 by (simp add: ms_def)
  qed
  have msE: "(if truthy (groups mt (k + 4))
            then bindE (grp mt (k + 4)) (\<lambda>w. Inr (padEnd 3 zero w))
            else Inr (js ''000'')) = Inr ms"
    using inv by (cases "groups mt (k + 4)") (auto simp: ms_def truthy_def grp_def bindE_def timeQ_def)
  show ?thesis
  proof (cases "groups mt (k + 3)")
    case None
    then have "timeOf mt k = Inr (padStart 2 zero (js ''00'') @ js '':'' @ padStart 2 zero a @ js '':'' @
            padStart 2 zero b @ js ''.'' @ ms)"
      using a b unfolding timeOf_def msE by (simp add: truthy_def grp_def bindE_def)
    moreover have "canonical (padStart 2 zero (js ''00'') @ js '':'' @ padStart 2 zero a @ js '':'' @
            padStart 2 zero b @ js ''.'' @ ms)"
      using two [OF a ne(1,2)] two [OF b ne(3,4)] ms js00 by (intro canonicalI) (simp_all add: padStart_id)
    ultimately show ?thesis by simp
  next
    case (Some c)
    with inv have "c \<noteq> []" by (auto simp: timeQ_def)
    with Some have "timeOf mt k = Inr (padStart 2 zero a @ js '':'' @ padStart 2 zero b @ js '':'' @
            padStart 2 zero c @ js ''.'' @ ms)"
      using a b unfolding timeOf_def msE by (simp add: truthy_def grp_def bindE_def)
    moreover have "canonical (padStart 2 zero a @ js '':'' @ padStart 2 zero b @ js '':'' @
            padStart 2 zero c @ js ''.'' @ ms)"
      using two [OF a ne(1,2)] two [OF b ne(3,4)] two [OF Some ne(5,6)] ms by (intro canonicalI) simp_all
    ultimately show ?thesis by simp
  qed
qed

lemma canonical_nonempty: "canonical t \<Longrightarrow> t \<noteq> []"
  by (auto simp: canonical_def)

lemma timesOf_ok:
  "\<exists>st et. timesOf content = Inr (st, et) \<and> timeOK st \<and> timeOK et \<and> (et \<noteq> [] \<longrightarrow> st \<noteq> [])"
proof (cases "match content reTimeRange")
  case (Some mt)
  from reTimeRange_groups [OF Some] have
    inv: "\<forall>g u. groups mt g = Some u \<longrightarrow> timeQ g u" and
    g: "groups mt (0 + 1) \<noteq> None" "groups mt (0 + 2) \<noteq> None"
       "groups mt (4 + 1) \<noteq> None" "groups mt (4 + 2) \<noteq> None"
    by (simp_all del: add_2_eq_Suc' add_2_eq_Suc)
  from timeOf_ok [OF inv _ g(1,2)] obtain st where st: "timeOf mt 0 = Inr st" "canonical st" by auto
  from timeOf_ok [OF inv _ g(3,4)] obtain et where et: "timeOf mt 4 = Inr et" "canonical et" by auto
  show ?thesis using Some st et canonical_nonempty
    by (auto simp: timesOf_def bindE_def timeOK_def)
next
  case None
  show ?thesis
  proof (cases "match content reTime")
    case (Some mt)
    from reTime_groups [OF Some] have
      inv: "\<forall>g u. groups mt g = Some u \<longrightarrow> timeQ g u" and
      g: "groups mt (0 + 1) \<noteq> None" "groups mt (0 + 2) \<noteq> None"
      by (simp_all del: add_2_eq_Suc' add_2_eq_Suc)
    from timeOf_ok [OF inv _ g(1,2)] obtain st where st: "timeOf mt 0 = Inr st" "canonical st" by auto
    show ?thesis using None Some st
      by (auto simp: timesOf_def bindE_def timeOK_def)
  next
    case None': None
    show ?thesis using None None' by (simp add: timesOf_def timeOK_def)
  qed
qed

lemma seq_grp_first:
  assumes "(w, c') \<in> set (m (Seq (Grp g (Rep gr lo hi cl)) rest) (b, s, c))" and "g \<notin> grps rest"
  shows "\<exists>u t. c' g = Some u \<and> lo \<le> length u \<and> s = u @ t"
proof -
  from assms(1) obtain w1 c1 w2 where
    a: "(w1, c1) \<in> set (m (Grp g (Rep gr lo hi cl)) (b, s, c))" and
    b: "(w2, c') \<in> set (m rest (b \<and> w1 = [], drop (length w1) s, c1))"
    by auto
  from a have c1: "c1 g = Some w1" and w1: "w1 \<in> set (rep gr lo hi cl s)" by auto
  from m_frame [OF b assms(2)] c1 have "c' g = Some w1" by simp
  with rep_props [OF w1] show ?thesis by blast
qed

lemma speaker_group:
  assumes "speakerMatchOf line = Some sm"
  shows "\<exists>g1 t. groups sm 1 = Some g1 \<and> g1 \<noteq> [] \<and> line = g1 @ t"
proof -
  let ?r1 = "cat [sp1, d12, sp0, chr CHR '':'', sp0, d12]"
  let ?r2 = "Rep True 1 None (Pos [CSpace, CChar 0x3A, CChar 0xFF1A])"
  let ?g = "Grp 1 (Rep False 1 None Dot)"
  from assms consider "match line (Seq Bol (Seq ?g ?r1)) = Some sm"
    | "match line (Seq Bol (Seq ?g ?r2)) = Some sm"
    by (auto simp: speakerMatchOf_def reSpeakerTime_def reSpeakerSep_def split: option.splits)
  then have "\<exists>u t. groups sm 1 = Some u \<and> 1 \<le> length u \<and> line = u @ t"
  proof cases
    case 1
    from match_anchored [OF 1]
    have "(matched sm, groups sm) \<in> set (m (Seq ?g ?r1) (True, line, Map.empty))" by blast
    then show ?thesis
      by (rule seq_grp_first) (simp add: sp1_def sp0_def d12_def chr_def)
  next
    case 2
    from match_anchored [OF 2]
    have "(matched sm, groups sm) \<in> set (m (Seq ?g ?r2) (True, line, Map.empty))" by blast
    then show ?thesis
      by (rule seq_grp_first) simp
  qed
  then show ?thesis by (metis One_nat_def Suc_le_length_iff list.simps(3))
qed

lemma trim_Cons_nonempty: "\<not> isSpace x \<Longrightarrow> trim (x # u) \<noteq> []"
  by (auto simp: trim_def dropWhile_eq_Nil_conv dropWhile_append)

lemma trim_hd: "trim s = x # u \<Longrightarrow> \<not> isSpace x"
proof -
  assume a: "trim s = x # u"
  define d where "d = dropWhile isSpace s"
  from a have t: "rev (dropWhile isSpace (rev d)) = x # u" by (simp add: trim_def d_def)
  then have ne: "dropWhile isSpace (rev d) \<noteq> []" by auto
  then have "d \<noteq> []" by auto
  then have hd: "\<not> isSpace (hd d)" unfolding d_def using hd_dropWhile by blast
  have "rev d = takeWhile isSpace (rev d) @ dropWhile isSpace (rev d)" by simp
  then have "last (rev d) = last (dropWhile isSpace (rev d))" using ne
    by (metis last_appendR)
  then have "hd d = last (dropWhile isSpace (rev d))" using \<open>d \<noteq> []\<close> by (simp add: last_rev)
  also have "\<dots> = hd (rev (dropWhile isSpace (rev d)))" using ne by (simp add: hd_rev)
  also have "\<dots> = x" using t by simp
  finally show ?thesis using hd by simp
qed

lemma txtStep_speaker:
  assumes "speakerMatchOf (trim l) = Some sm" and "trim l \<noteq> []"
  shows "\<exists>e. txtStep acc l = Inr (acc @ [e]) \<and> speaker e \<noteq> [] \<and> entryOK e"
proof -
  from speaker_group [OF assms(1)] obtain g1 t where
    g1: "groups sm 1 = Some g1" "g1 \<noteq> []" "trim l = g1 @ t" by blast
  then obtain x u where xu: "g1 = x # u" by (cases g1) auto
  with g1 have "\<not> isSpace x" using trim_hd [of l x "u @ t"] by simp
  then have sp: "trim g1 \<noteq> []" unfolding xu by (rule trim_Cons_nonempty)
  obtain st et where
    t: "timesOf (trim (drop (length g1) (trim l))) = Inr (st, et)" "timeOK st" "timeOK et"
       "et \<noteq> [] \<longrightarrow> st \<noteq> []"
    using timesOf_ok by blast
  show ?thesis using assms(1) g1(1) sp t
    by (simp add: txtStep_def Let_def grp_def bindE_def entryOK_def)
qed

lemma txtStep_fold:
  "speakerMatchOf (trim l) = None \<Longrightarrow> acc \<noteq> [] \<Longrightarrow>
   txtStep acc l = Inr (butlast acc @ [(last acc)\<lparr>entryText := entryText (last acc) @ trim l\<rparr>])"
  by (simp add: txtStep_def Let_def)

lemma txtStep_first:
  "speakerMatchOf (trim l) = None \<Longrightarrow>
   txtStep [] l = Inr [\<lparr>speaker = [], startTime = [], endTime = [], entryText = trim l\<rparr>]"
  by (simp add: txtStep_def Let_def)

lemma txtInv_snoc:
  "txtInv acc \<Longrightarrow> entryOK e \<Longrightarrow> speaker e \<noteq> [] \<or> acc = [] \<Longrightarrow> txtInv (acc @ [e])"
  by (cases acc) (auto simp: txtInv_def)

lemma txtInv_fold:
  assumes "txtInv acc" "acc \<noteq> []"
  shows "txtInv (butlast acc @ [(last acc)\<lparr>entryText := tx\<rparr>])"
proof -
  from assms(2) obtain ys y where acc: "acc = ys @ [y]" by (metis rev_exhaust)
  show ?thesis using assms(1) unfolding acc
    by (cases ys) (auto simp: txtInv_def entryOK_def)
qed

lemma txtStep_inv:
  assumes "trim l \<noteq> []" "txtInv acc"
  shows "\<exists>acc'. txtStep acc l = Inr acc' \<and> txtInv acc' \<and> acc' \<noteq> []"
proof (cases "speakerMatchOf (trim l)")
  case None
  show ?thesis
  proof (cases "acc = []")
    case True
    then show ?thesis using txtStep_first [OF None]
      by (simp add: txtInv_def entryOK_def timeOK_def)
  next
    case False
    then show ?thesis using txtStep_fold [OF None False] txtInv_fold [OF assms(2) False]
      by simp
  qed
next
  case (Some sm)
  from txtStep_speaker [OF Some assms(1), of acc] obtain e where
    "txtStep acc l = Inr (acc @ [e])" "speaker e \<noteq> []" "entryOK e" by blast
  then show ?thesis using txtInv_snoc [OF assms(2)] by simp
qed

lemma txtLoop_inv:
  "\<forall>l\<in>set ls. trim l \<noteq> [] \<Longrightarrow> txtInv acc \<Longrightarrow>
   \<exists>es. txtLoop ls acc = Inr es \<and> txtInv es \<and> (ls \<noteq> [] \<or> acc \<noteq> [] \<longrightarrow> es \<noteq> [])"
proof (induction ls arbitrary: acc)
  case Nil
  then show ?case by simp
next
  case (Cons l ls)
  from Cons.prems have "trim l \<noteq> []" by simp
  from txtStep_inv [OF this Cons.prems(2)] obtain acc' where
    s: "txtStep acc l = Inr acc'" "txtInv acc'" "acc' \<noteq> []" by blast
  from Cons.IH [OF _ s(2)] Cons.prems(1) obtain es where
    es: "txtLoop ls acc' = Inr es" "txtInv es" "ls \<noteq> [] \<or> acc' \<noteq> [] \<longrightarrow> es \<noteq> []" by auto
  with s show ?case by simp
qed

section \<open>Properties of the parsers and of the date extractor\<close>

lemma trim_eq_Nil: "trim s = [] \<longleftrightarrow> (\<forall>x\<in>set s. isSpace x)"
proof
  assume "trim s = []"
  then have a: "\<forall>x\<in>set (dropWhile isSpace s). isSpace x"
    by (simp add: trim_def dropWhile_eq_Nil_conv)
  have "dropWhile isSpace s = []"
  proof (rule ccontr)
    assume ne: "dropWhile isSpace s \<noteq> []"
    then have "\<not> isSpace (hd (dropWhile isSpace s))" by (rule hd_dropWhile)
    moreover have "hd (dropWhile isSpace s) \<in> set (dropWhile isSpace s)" using ne by simp
    ultimately show False using a by blast
  qed
  then show "\<forall>x\<in>set s. isSpace x" by (simp add: dropWhile_eq_Nil_conv)
next
  assume "\<forall>x\<in>set s. isSpace x"
  then show "trim s = []" by (auto simp: trim_def dropWhile_eq_Nil_conv dest: set_dropWhileD)
qed

lemma split_nl_nonempty: "split_nl s \<noteq> []"
  by (induction s) (auto split: list.splits)

lemma split_nl_mem: "x \<in> set s \<Longrightarrow> x \<noteq> 0x0A \<Longrightarrow> \<exists>l\<in>set (split_nl s). x \<in> set l"
proof (induction s)
  case Nil
  then show ?case by simp
next
  case (Cons c cs)
  show ?case
  proof (cases "x = c")
    case True
    with Cons.prems(2) show ?thesis using split_nl_nonempty [of cs]
      by (auto split: list.splits)
  next
    case False
    with Cons obtain l where "l \<in> set (split_nl cs)" "x \<in> set l" by auto
    then show ?thesis by (auto split: list.splits)
  qed
qed

lemma isSpace_nl: "isSpace 0x0A"
  by (simp add: isSpace_def isLineTerminator_def)

lemma txtLines_nonempty: "trim text \<noteq> [] \<Longrightarrow> txtLines text \<noteq> []"
proof -
  assume "trim text \<noteq> []"
  then obtain x where x: "x \<in> set text" "\<not> isSpace x" by (auto simp: trim_eq_Nil)
  then have "x \<noteq> 0x0A" using isSpace_nl by auto
  from split_nl_mem [OF x(1) this] obtain l where l: "l \<in> set (split_nl text)" "x \<in> set l"
    by blast
  with x(2) have "trim l \<noteq> []" by (auto simp: trim_eq_Nil)
  with l show ?thesis by (auto simp: txtLines_def filter_empty_conv)
qed

lemma txtInv_Nil: "txtInv []"
  by (simp add: txtInv_def)

lemma parseTxtFile_inv:
  "\<exists>es. parseTxtFile text = Inr es \<and> txtInv es \<and> (txtLines text \<noteq> [] \<longrightarrow> es \<noteq> [])"
  using txtLoop_inv [of "txtLines text" "[]", OF _ txtInv_Nil]
  by (auto simp: parseTxtFile_def txtLines_def)

lemma is_none_eq: "Option.is_none x \<Longrightarrow> x = None"
  by (simp add: Option.is_none_def)

lemma match_mem:
  "match s r = Some mt \<Longrightarrow> \<exists>b' s'. (matched mt, groups mt) \<in> set (m r (b', s', Map.empty))"
  unfolding match_def using search_Some by blast

lemma match_must: "match s r = Some mt \<Longrightarrow> g \<in> must r \<Longrightarrow> groups mt g \<noteq> None"
proof -
  assume a: "match s r = Some mt" and g: "g \<in> must r"
  from match_mem [OF a] obtain b' s' where
    "(matched mt, groups mt) \<in> set (m r (b', s', Map.empty))" by blast
  from m_must [OF this g] show ?thesis .
qed

lemma match_frame: "match s r = Some mt \<Longrightarrow> g \<notin> grps r \<Longrightarrow> groups mt g = None"
proof -
  assume a: "match s r = Some mt" and g: "g \<notin> grps r"
  from match_mem [OF a] obtain b' s' where
    "(matched mt, groups mt) \<in> set (m r (b', s', Map.empty))" by blast
  from m_frame [OF this g] show ?thesis by simp
qed

lemma m_SeqD:
  "(w, c') \<in> set (m (Seq r1 r2) (b, s, c)) \<Longrightarrow>
   \<exists>w1 c1 w2. (w1, c1) \<in> set (m r1 (b, s, c)) \<and>
     (w2, c') \<in> set (m r2 (b \<and> w1 = [], drop (length w1) s, c1)) \<and> w = w1 @ w2"
  by auto

lemma match_inv:
  "match s r = Some mt \<Longrightarrow> capsOK Q r \<Longrightarrow> groups mt g = Some u \<Longrightarrow> Q g u"
proof -
  assume a: "match s r = Some mt" and ok: "capsOK Q r" and g: "groups mt g = Some u"
  from match_mem [OF a] obtain b' s' where
    "(matched mt, groups mt) \<in> set (m r (b', s', Map.empty))" by blast
  from m_inv [OF this ok _ g] show ?thesis by simp
qed

lemma vttStamp_nonempty: "(w, c') \<in> set (m vttStamp (b, s, c)) \<Longrightarrow> w \<noteq> []"
proof -
  let ?rest = "cat [chr CHR '':'', dplus, chr CHR '':'', dplus, chr CHR ''.'', dplus]"
  assume "(w, c') \<in> set (m vttStamp (b, s, c))"
  then have "(w, c') \<in> set (m (Seq dplus ?rest) (b, s, c))"
    by (simp only: vttStamp_def cat.simps)
  from m_SeqD [OF this] obtain w1 c1 w2 where "(w1, c1) \<in> set (m dplus (b, s, c))" "w = w1 @ w2"
    by blast
  then show ?thesis using rep_props [of w1 True 1 None digit s] by (auto simp: dplus_def)
qed

lemma capsOK_vttStamp: "capsOK Q vttStamp"
  by (simp add: vttStamp_def dplus_def chr_def)

lemma reVttTime_capsOK: "capsOK (\<lambda>g u. u \<noteq> []) reVttTime"
  using vttStamp_nonempty
  by (auto simp: reVttTime_def capsOK_vttStamp sp1_def)

lemma vttPayload_speaker:
  assumes "vttPayload p = Inr (sp, tx)"
  shows "sp \<noteq> []"
proof (cases "match p reVttSpeaker")
  case None
  with assms show ?thesis by (auto simp: vttPayload_def unknownSpeaker_def)
next
  case (Some sm)
  have "groups sm 2 = None"
    by (rule match_frame [OF Some]) (simp add: reVttSpeaker_def sp1_def chr_def)
  with assms Some show ?thesis
    by (auto simp: vttPayload_def bindE_def truthy_def grp_def split: if_splits option.splits)
qed

lemma vttPush_inv:
  "vttInv acc \<Longrightarrow> sp \<noteq> [] \<Longrightarrow> st \<noteq> [] \<Longrightarrow> vttInv (vttPush acc sp st et tx)"
proof -
  assume a: "vttInv acc" "sp \<noteq> []" "st \<noteq> []"
  show ?thesis
  proof (cases "acc \<noteq> [] \<and> speaker (last acc) = sp")
    case True
    then obtain ys y where acc: "acc = ys @ [y]" by (metis rev_exhaust)
    with a True show ?thesis by (simp add: vttPush_def vttInv_def)
  next
    case False
    with a show ?thesis by (auto simp: vttPush_def vttInv_def)
  qed
qed

lemma vttLoop_inv:
  "vttLoop ls acc = Inr es \<Longrightarrow> vttInv acc \<Longrightarrow> vttInv es"
proof (induction ls acc rule: vttLoop.induct)
  case (1 acc)
  then show ?case by simp
next
  case (2 l ls acc)
  show ?case
  proof (cases "includesStr (trim l) arrow")
    case False
    with 2 show ?thesis by simp
  next
    case True
    show ?thesis
    proof (cases "match (trim l) reVttTime")
      case None
      with 2 True show ?thesis by simp
    next
      case (Some tm)
      show ?thesis
      proof (cases "groups tm 1")
        case None
        with "2.prems" True Some show ?thesis by simp
      next
        case st: (Some st)
        show ?thesis
        proof (cases "groups tm 2")
          case None
          with "2.prems" True Some st show ?thesis by simp
        next
          case et: (Some et)
          have stne: "st \<noteq> []" using match_inv [OF Some reVttTime_capsOK st] .
          show ?thesis
          proof (cases ls)
            case Nil
            with "2.prems" True Some st et show ?thesis by simp
          next
            case (Cons p ls')
            show ?thesis
            proof (cases "vttPayload (trim p)")
              case (Inl e)
              with "2.prems" True Some st et Cons show ?thesis by simp
            next
              case (Inr r)
              obtain sp tx where r: "r = (sp, tx)" by (cases r)
              from Inr r have spne: "sp \<noteq> []" using vttPayload_speaker by blast
              from "2.prems" True Some st et Cons Inr r
              have "vttLoop ls' (vttPush acc sp st et tx) = Inr es" by simp
              moreover have "vttInv (vttPush acc sp st et tx)"
                using vttPush_inv [OF "2.prems"(2) spne stne] .
              ultimately show ?thesis
                using "2.IH"(2) [OF True Some _ st et Cons Inr] r by simp
            qed
          qed
        qed
      qed
    qed
  qed
qed

lemma not_is_none_the: "\<not> Option.is_none x \<Longrightarrow> x = Some (the x)"
  by (cases x) simp_all








lemma timeOf_formula:
  assumes inv: "\<forall>g u. groups mt g = Some u \<longrightarrow> timeQ g u"
    and a: "groups mt (k + 1) = Some a" and b: "groups mt (k + 2) = Some b"
  shows "timeOf mt k = Inr (componentRule a b (groups mt (k + 3)) (groups mt (k + 4)))"
proof -
  have ne: "\<And>g u. groups mt g = Some u \<Longrightarrow> u \<noteq> []"
    using inv by (auto simp: timeQ_def)
  have t3: "truthy (groups mt (k + 3)) \<longleftrightarrow> groups mt (k + 3) \<noteq> None"
    using ne by (cases "groups mt (k + 3)") (auto simp: truthy_def)
  have t4: "truthy (groups mt (k + 4)) \<longleftrightarrow> groups mt (k + 4) \<noteq> None"
    using ne by (cases "groups mt (k + 4)") (auto simp: truthy_def)
  have p: "padStart 2 zero (js ''00'') = js ''00''"
    by (simp add: padStart_def js_def)
  show ?thesis
    using a b unfolding timeOf_def t3 t4
    by (cases "groups mt (k + 3)"; cases "groups mt (k + 4)")
       (simp_all add: grp_def bindE_def componentRule_def p)
qed

lemma txtStep_nospeaker_concat:
  assumes "speakerMatchOf (trim l) = None"
  shows "\<exists>acc'. txtStep acc l = Inr acc' \<and>
           concat (map entryText acc') = concat (map entryText acc) @ trim l"
proof (cases "acc = []")
  case True
  then show ?thesis using txtStep_first [OF assms] by simp
next
  case False
  then obtain ys y where acc: "acc = ys @ [y]" by (metis rev_exhaust)
  show ?thesis using txtStep_fold [OF assms False] unfolding acc by simp
qed

lemma txtLoop_nospeaker_concat:
  "\<forall>l\<in>set ls. speakerMatchOf (trim l) = None \<Longrightarrow>
   \<exists>es. txtLoop ls acc = Inr es \<and>
     concat (map entryText es) = concat (map entryText acc) @ concat (map trim ls)"
proof (induction ls arbitrary: acc)
  case Nil
  then show ?case by simp
next
  case (Cons l ls)
  from Cons.prems have "speakerMatchOf (trim l) = None" by simp
  from txtStep_nospeaker_concat [OF this, of acc] obtain acc' where
    s: "txtStep acc l = Inr acc'"
       "concat (map entryText acc') = concat (map entryText acc) @ trim l" by blast
  from Cons.IH [of acc'] Cons.prems obtain es where
    "txtLoop ls acc' = Inr es"
    "concat (map entryText es) = concat (map entryText acc') @ concat (map trim ls)" by auto
  with s show ?case by simp
qed

lemma vttInv_Nil: "vttInv []"
  by (simp add: vttInv_def)

lemma parseVttFile_inv: "parseVttFile text = Inr es \<Longrightarrow> vttInv es"
  unfolding parseVttFile_def using vttLoop_inv vttInv_Nil by blast




text \<open>The caption parser never ends in an error: the groups it reads are always set.\<close>

lemma reVttSpeaker_capsOK: "capsOK (\<lambda>g u. u \<noteq> []) reVttSpeaker"
proof -
  have "w \<noteq> []" if "(w, c') \<in> set (m (Rep True 1 None notGt) (b, s, c))" for w c' b s c
    using that rep_props [of w True 1 None notGt s] by auto
  then show ?thesis by (simp add: reVttSpeaker_def sp1_def chr_def)
qed

lemma vttPayload_total: "\<exists>sp tx. vttPayload p = Inr (sp, tx)"
proof (cases "match p reVttSpeaker")
  case None
  then show ?thesis by (simp add: vttPayload_def)
next
  case (Some sm)
  have "1 \<in> must reVttSpeaker" by (simp add: reVttSpeaker_def sp1_def chr_def)
  from match_must [OF Some this] obtain w where w: "groups sm 1 = Some w" by blast
  from match_inv [OF Some reVttSpeaker_capsOK w] have "w \<noteq> []" .
  with Some w show ?thesis by (simp add: vttPayload_def truthy_def grp_def bindE_def)
qed

lemma vttLoop_total: "\<exists>es. vttLoop ls acc = Inr es"
proof (induction ls acc rule: vttLoop.induct)
  case (1 acc)
  then show ?case by simp
next
  case (2 l ls acc)
  show ?case
  proof (cases "includesStr (trim l) arrow")
    case False
    with 2 show ?thesis by simp
  next
    case True
    show ?thesis
    proof (cases "match (trim l) reVttTime")
      case None
      with 2 True show ?thesis by simp
    next
      case (Some tm)
      have "1 \<in> must reVttTime" "2 \<in> must reVttTime" by (simp_all add: reVttTime_def sp1_def)
      from this [THEN match_must [OF Some]] obtain st et where
        st: "groups tm 1 = Some st" and et: "groups tm 2 = Some et" by blast
      show ?thesis
      proof (cases ls)
        case Nil
        with True Some st et show ?thesis by simp
      next
        case (Cons p ls')
        from vttPayload_total obtain sp tx where r: "vttPayload (trim p) = Inr (sp, tx)" by blast
        from "2.IH"(2) [OF True Some _ st et Cons r]
        obtain es where "vttLoop ls' (vttPush acc sp st et tx) = Inr es" by auto
        with True Some st et Cons r show ?thesis by simp
      qed
    qed
  qed
qed

lemma parseVttFile_total: "\<exists>es. parseVttFile text = Inr es"
  by (simp add: parseVttFile_def vttLoop_total)

lemma tl_nth: "0 < i \<Longrightarrow> i < length es \<Longrightarrow> es ! i \<in> set (tl es)"
  by (cases es; cases i) auto

section \<open>The claims\<close>

subsection \<open>C1: Canonical time strings\<close>




subsection \<open>C2: The text of a line with a speaker\<close>

text \<open>C2, evaluated on its own examples.  The content of a line starts right after the label
  (\<open>line.substring(speakerMatch[1].length)\<close>), so a separating colon stays in front of the
  content; \<open>trim\<close> only removes white space.  With a full-width colon the text of the
  entry is the colon followed by the words, and with \<open>: \<close> it is the colon, the space and
  the words, followed by the continuation line.  Only the example whose separator is white
  space gives the text that C2 states.\<close>

theorem colon_separator_kept:
  "parseTxtFile (exTanaka @ [0xFF1A] @ exOhayou) =
     Inr [\<lparr>speaker = exTanaka, startTime = [], endTime = [], entryText = [0xFF1A] @ exOhayou\<rparr>] \<and>
   parseTxtFile (exTanaka @ js '': '' @ exKonnichiwa @ [0x0A] @ exGenki) =
     Inr [\<lparr>speaker = exTanaka, startTime = [], endTime = [],
           entryText = js '': '' @ exKonnichiwa @ exGenki\<rparr>] \<and>
   parseTxtFile (exTanaka @ js '' 5:30 '' @ exKonnichiwa) =
     Inr [\<lparr>speaker = exTanaka, startTime = js ''00:05:30.000'', endTime = [],
           entryText = exKonnichiwa\<rparr>]"
  by code_simp

subsection \<open>C3: At least one entry\<close>

text \<open>C3, for the text parser.  For every input whose trimmed form is not empty the text
  parser returns, without an error, a list of at least one entry, for a plain-text file and
  for the text extracted from a word-processor file.\<close>

theorem freeform_at_least_one:
  "trim text \<noteq> [] \<Longrightarrow>
   (\<exists>es. parseTxtFile text = Inr es \<and> length es \<ge> 1) \<and>
   (\<exists>es. parseDocxFile text = Inr es \<and> length es \<ge> 1)"
  using parseTxtFile_inv [of "text"] txtLines_nonempty [of "text"]
  by (auto simp: Suc_le_eq parseDocxFile_def parseTxtFile_def)

text \<open>An instance of C3: one word.\<close>

theorem freeform_at_least_one_witness:
  "trim (js ''hello'') \<noteq> [] \<and>
   (\<exists>es. parseTxtFile (js ''hello'') = Inr es \<and> length es \<ge> 1)"
proof -
  have t: "trim (js ''hello'') \<noteq> []" by code_simp
  from freeform_at_least_one [OF t] t show ?thesis by blast
qed

text \<open>C3 fails for the caption parser: a text without a cue line gives no entry.\<close>

theorem caption_none_counterexample:
  "trim (js ''hello'') \<noteq> [] \<and> parseVttFile (js ''hello'') = Inr []"
  by code_simp

subsection \<open>C4: The time by the number of components\<close>

text \<open>C4.  Whenever the single-time pattern matches, groups 1 and 2 are defined and the time
  built is \<open>componentRule\<close> of the groups: minute and second with hour \<open>00\<close> when the
  third group is absent, hour, minute and second when it is present, \<open>000\<close> for absent
  milliseconds and right padding for short ones.  The same holds for each side of the range
  pattern.  The three examples of the claim evaluate as stated.\<close>

theorem timecode_component_count:
  "(match content reTime = Some mt \<longrightarrow>
      (\<exists>a b. groups mt 1 = Some a \<and> groups mt 2 = Some b \<and>
         timeOf mt 0 = Inr (componentRule a b (groups mt 3) (groups mt 4)))) \<and>
   (match content reTimeRange = Some mt \<longrightarrow>
      (\<exists>a b c d. groups mt 1 = Some a \<and> groups mt 2 = Some b \<and>
         groups mt 5 = Some c \<and> groups mt 6 = Some d \<and>
         timeOf mt 0 = Inr (componentRule a b (groups mt 3) (groups mt 4)) \<and>
         timeOf mt 4 = Inr (componentRule c d (groups mt 7) (groups mt 8)))) \<and>
   timesOf (js ''5:30'') = Inr (js ''00:05:30.000'', []) \<and>
   timesOf (js ''1:5:30'') = Inr (js ''01:05:30.000'', []) \<and>
   timesOf (js ''1:2:3.4'') = Inr (js ''01:02:03.400'', [])"
proof (intro conjI impI)
  assume mt: "match content reTime = Some mt"
  from reTime_groups [OF mt] obtain a b where
    inv: "\<forall>g u. groups mt g = Some u \<longrightarrow> timeQ g u" and
    ab: "groups mt (0 + 1) = Some a" "groups mt (0 + 2) = Some b"
    by (auto simp del: add_2_eq_Suc' add_2_eq_Suc)
  from timeOf_formula [OF inv ab] ab
  show "\<exists>a b. groups mt 1 = Some a \<and> groups mt 2 = Some b \<and>
         timeOf mt 0 = Inr (componentRule a b (groups mt 3) (groups mt 4))"
    by (simp del: add_2_eq_Suc' add_2_eq_Suc)
next
  assume mt: "match content reTimeRange = Some mt"
  from reTimeRange_groups [OF mt] obtain a b c d where
    inv: "\<forall>g u. groups mt g = Some u \<longrightarrow> timeQ g u" and
    ab: "groups mt (0 + 1) = Some a" "groups mt (0 + 2) = Some b" and
    cd: "groups mt (4 + 1) = Some c" "groups mt (4 + 2) = Some d"
    by (auto simp del: add_2_eq_Suc' add_2_eq_Suc)
  from timeOf_formula [OF inv ab] timeOf_formula [OF inv cd] ab cd
  show "\<exists>a b c d. groups mt 1 = Some a \<and> groups mt 2 = Some b \<and>
         groups mt 5 = Some c \<and> groups mt 6 = Some d \<and>
         timeOf mt 0 = Inr (componentRule a b (groups mt 3) (groups mt 4)) \<and>
         timeOf mt 4 = Inr (componentRule c d (groups mt 7) (groups mt 8))"
    by (simp del: add_2_eq_Suc' add_2_eq_Suc)
next
  show "timesOf (js ''5:30'') = Inr (js ''00:05:30.000'', [])" by code_simp
  show "timesOf (js ''1:5:30'') = Inr (js ''01:05:30.000'', [])" by code_simp
  show "timesOf (js ''1:2:3.4'') = Inr (js ''01:02:03.400'', [])" by code_simp
qed

text \<open>An instance of C4 for each pattern.\<close>

theorem timecode_component_count_witness:
  "\<not> Option.is_none (match (js ''1:2:3.4'') reTime) \<and>
   timeOf (the (match (js ''1:2:3.4'') reTime)) 0 = Inr (js ''01:02:03.400'') \<and>
   \<not> Option.is_none (match (js ''5:30 - 1:5:30.25'') reTimeRange) \<and>
   timeOf (the (match (js ''5:30 - 1:5:30.25'') reTimeRange)) 0 = Inr (js ''00:05:30.000'') \<and>
   timeOf (the (match (js ''5:30 - 1:5:30.25'') reTimeRange)) 4 = Inr (js ''01:05:30.250'')"
proof -
  let ?m = "the (match (js ''1:2:3.4'') reTime)"
  let ?n = "the (match (js ''5:30 - 1:5:30.25'') reTimeRange)"
  have n1: "\<not> Option.is_none (match (js ''1:2:3.4'') reTime)" by code_simp
  have n2: "\<not> Option.is_none (match (js ''5:30 - 1:5:30.25'') reTimeRange)" by code_simp
  have g1: "groups ?m 1 = Some (js ''1'')" "groups ?m 2 = Some (js ''2'')"
    "groups ?m 3 = Some (js ''3'')" "groups ?m 4 = Some (js ''4'')"
    by code_simp+
  have g2: "groups ?n 1 = Some (js ''5'')" "groups ?n 2 = Some (js ''30'')"
    "groups ?n 3 = None" "groups ?n 4 = None"
    "groups ?n 5 = Some (js ''1'')" "groups ?n 6 = Some (js ''5'')"
    "groups ?n 7 = Some (js ''30'')" "groups ?n 8 = Some (js ''25'')"
    by code_simp+
  have c: "componentRule (js ''1'') (js ''2'') (Some (js ''3'')) (Some (js ''4'')) = js ''01:02:03.400''"
    "componentRule (js ''5'') (js ''30'') None None = js ''00:05:30.000''"
    "componentRule (js ''1'') (js ''5'') (Some (js ''30'')) (Some (js ''25'')) = js ''01:05:30.250''"
    by code_simp+
  from timecode_component_count [of "js ''1:2:3.4''" ?m] not_is_none_the [OF n1]
  have "timeOf ?m 0 = Inr (js ''01:02:03.400'')" using g1 c by auto
  moreover
  from timecode_component_count [of "js ''5:30 - 1:5:30.25''" ?n] not_is_none_the [OF n2]
  have "timeOf ?n 0 = Inr (js ''00:05:30.000'') \<and> timeOf ?n 4 = Inr (js ''01:05:30.250'')"
    using g2 c by auto
  ultimately show ?thesis using n1 n2 by simp
qed

subsection \<open>C5: The date cascade\<close>



subsection \<open>C6: Merging cues of one speaker\<close>



subsection \<open>C7: Entries without a speaker\<close>

text \<open>C7, with its second part for the text parser.  In the result of the text parser only the
  first entry can have an empty \<open>speaker\<close>; the caption parser never produces an empty
  \<open>speaker\<close>; and in the text parser a line without a speaker match is appended to the
  text of the preceding entry.\<close>

theorem empty_speaker_only_first:
  "(parseTxtFile text = Inr es \<or> parseDocxFile text = Inr es \<longrightarrow>
      (\<forall>i. 0 < i \<and> i < length es \<longrightarrow> speaker (es ! i) \<noteq> [])) \<and>
   (parseVttFile text = Inr es \<longrightarrow> (\<forall>e\<in>set es. speaker e \<noteq> [])) \<and>
   (speakerMatchOf (trim l) = None \<and> acc \<noteq> [] \<longrightarrow>
      txtStep acc l =
        Inr (butlast acc @ [(last acc)\<lparr>entryText := entryText (last acc) @ trim l\<rparr>]))"
proof (intro conjI impI allI)
  fix i
  assume p: "parseTxtFile text = Inr es \<or> parseDocxFile text = Inr es" and i: "0 < i \<and> i < length es"
  from p parseTxtFile_inv [of "text"] have "txtInv es"
    by (auto simp: parseDocxFile_def parseTxtFile_def)
  with tl_nth [of i es] i show "speaker (es ! i) \<noteq> []" by (auto simp: txtInv_def)
next
  assume "parseVttFile text = Inr es"
  from parseVttFile_inv [OF this] show "\<forall>e\<in>set es. speaker e \<noteq> []"
    by (simp add: vttInv_def list_all_iff)
next
  assume "speakerMatchOf (trim l) = None \<and> acc \<noteq> []"
  then show "txtStep acc l =
        Inr (butlast acc @ [(last acc)\<lparr>entryText := entryText (last acc) @ trim l\<rparr>])"
    using txtStep_fold by blast
qed

text \<open>An instance of C7 for each of its three parts.\<close>

theorem empty_speaker_only_first_witness:
  "parseTxtFile exTwoSpeakers =
     Inr [\<lparr>speaker = js ''A'', startTime = js ''00:01:00.000'', endTime = [], entryText = js ''x''\<rparr>,
          \<lparr>speaker = js ''B'', startTime = js ''00:02:00.000'', endTime = [], entryText = js ''yzz''\<rparr>] \<and>
   js ''B'' \<noteq> [] \<and>
   parseVttFile exTwoCues =
     Inr [\<lparr>speaker = js ''Bob'', startTime = js ''00:00:01.000'', endTime = js ''00:00:02.000'',
           entryText = js ''hi''\<rparr>,
          \<lparr>speaker = unknownSpeaker, startTime = js ''00:00:03.000'', endTime = js ''00:00:04.000'',
           entryText = js ''yes''\<rparr>] \<and>
   js ''Bob'' \<noteq> [] \<and> unknownSpeaker \<noteq> [] \<and>
   speakerMatchOf (trim (js ''zz'')) = None \<and>
   txtStep [\<lparr>speaker = js ''B'', startTime = js ''00:02:00.000'', endTime = [], entryText = js ''y''\<rparr>]
       (js ''zz'') =
     Inr [\<lparr>speaker = js ''B'', startTime = js ''00:02:00.000'', endTime = [], entryText = js ''yzz''\<rparr>]"
proof -
  let ?a = "\<lparr>speaker = js ''A'', startTime = js ''00:01:00.000'', endTime = [], entryText = js ''x''\<rparr>"
  let ?b = "\<lparr>speaker = js ''B'', startTime = js ''00:02:00.000'', endTime = [], entryText = js ''yzz''\<rparr>"
  let ?y = "\<lparr>speaker = js ''B'', startTime = js ''00:02:00.000'', endTime = [], entryText = js ''y''\<rparr>"
  let ?c = "\<lparr>speaker = js ''Bob'', startTime = js ''00:00:01.000'', endTime = js ''00:00:02.000'',
           entryText = js ''hi''\<rparr>"
  let ?d = "\<lparr>speaker = unknownSpeaker, startTime = js ''00:00:03.000'', endTime = js ''00:00:04.000'',
           entryText = js ''yes''\<rparr>"
  have p: "parseTxtFile exTwoSpeakers = Inr [?a, ?b]" by code_simp
  have v: "parseVttFile exTwoCues = Inr [?c, ?d]" by code_simp
  have n: "speakerMatchOf (trim (js ''zz'')) = None" by (rule is_none_eq) code_simp
  have t: "trim (js ''zz'') = js ''zz''" by code_simp
  note th = empty_speaker_only_first
  from th [of exTwoSpeakers "[?a, ?b]"] p
  have "\<forall>i. 0 < i \<and> i < length [?a, ?b] \<longrightarrow> speaker ([?a, ?b] ! i) \<noteq> []" by blast
  from this [rule_format, of 1] have 1: "js ''B'' \<noteq> []" by simp
  from th [of exTwoCues "[?c, ?d]"] v have "\<forall>e\<in>set [?c, ?d]. speaker e \<noteq> []" by blast
  then have 2: "js ''Bob'' \<noteq> []" "unknownSpeaker \<noteq> []" by simp_all
  from th [of _ _ "js ''zz''" "[?y]"] n t
  have 3: "txtStep [?y] (js ''zz'') = Inr [?b]" by (simp add: js_def)
  from 1 2 3 p v n show ?thesis by simp
qed

text \<open>C7 fails for the caption parser: the payload of the second cue has no speaker tag, and
  it becomes a new entry under the sentinel speaker instead of being appended to the text
  of the preceding entry.\<close>

theorem caption_untagged_counterexample:
  "parseVttFile exTwoCues =
     Inr [\<lparr>speaker = js ''Bob'', startTime = js ''00:00:01.000'', endTime = js ''00:00:02.000'',
           entryText = js ''hi''\<rparr>,
          \<lparr>speaker = unknownSpeaker, startTime = js ''00:00:03.000'', endTime = js ''00:00:04.000'',
           entryText = js ''yes''\<rparr>] \<and>
   Option.is_none (match (js ''yes'') reVttSpeaker)"
  by code_simp

subsection \<open>C8: Folding a continuation line\<close>

text \<open>C8.  When a line has no speaker match and the accumulator is not empty, the step succeeds,
  the number of entries and all entries but the last are unchanged, the last entry keeps its
  \<open>speaker\<close>, \<open>startTime\<close> and \<open>endTime\<close>, and its text is extended by the
  trimmed line.\<close>

theorem fold_frame:
  "speakerMatchOf (trim l) = None \<Longrightarrow> acc \<noteq> [] \<Longrightarrow>
   \<exists>acc'. txtStep acc l = Inr acc' \<and> length acc' = length acc \<and> butlast acc' = butlast acc \<and>
     speaker (last acc') = speaker (last acc) \<and> startTime (last acc') = startTime (last acc) \<and>
     endTime (last acc') = endTime (last acc) \<and>
     entryText (last acc') = entryText (last acc) @ trim l"
  by (simp add: txtStep_fold)

text \<open>An instance of C8.\<close>

theorem fold_frame_witness:
  "speakerMatchOf (trim (js '' there '')) = None \<and>
   txtStep [\<lparr>speaker = js ''A'', startTime = js ''00:05:30.000'', endTime = [], entryText = js ''hi''\<rparr>]
      (js '' there '') =
    Inr [\<lparr>speaker = js ''A'', startTime = js ''00:05:30.000'', endTime = [],
          entryText = js ''hithere''\<rparr>]"
proof -
  let ?e = "\<lparr>speaker = js ''A'', startTime = js ''00:05:30.000'', endTime = [], entryText = js ''hi''\<rparr>"
  have n: "speakerMatchOf (trim (js '' there '')) = None"
    by (rule is_none_eq) code_simp
  have t: "trim (js '' there '') = js ''there''" by code_simp
  from fold_frame [OF n, of "[?e]"] obtain acc' where
    a: "txtStep [?e] (js '' there '') = Inr acc'" "length acc' = 1"
       "speaker (last acc') = js ''A''" "startTime (last acc') = js ''00:05:30.000''"
       "endTime (last acc') = []" "entryText (last acc') = js ''hi'' @ js ''there''"
    using t by auto
  from a(2) obtain x where x: "acc' = [x]" by (cases acc') auto
  with a have "x = \<lparr>speaker = js ''A'', startTime = js ''00:05:30.000'', endTime = [],
          entryText = js ''hithere''\<rparr>" by (cases x) (simp add: js_def)
  with a(1) x n show ?thesis by simp
qed

subsection \<open>C9: Concatenating the texts\<close>

text \<open>C9, as the code has it.  When no line of the document matches a speaker pattern, the text
  parser succeeds and the concatenation of the texts of its entries is the concatenation of
  the non-blank lines, each trimmed, with nothing between them.\<close>

theorem freeform_concat_texts:
  "\<forall>l\<in>set (txtLines text). speakerMatchOf (trim l) = None \<Longrightarrow>
   \<exists>es. parseTxtFile text = Inr es \<and>
     concat (map entryText es) = concat (map trim (txtLines text))"
  using txtLoop_nospeaker_concat [of "txtLines text" "[]"]
  by (simp add: parseTxtFile_def)

text \<open>An instance of C9: two lines with surrounding spaces and a blank line between them.\<close>

theorem freeform_concat_texts_witness:
  "txtLines (js ''ab \<newline>\<newline> cd'') = [js ''ab '', js '' cd''] \<and>
   speakerMatchOf (trim (js ''ab '')) = None \<and> speakerMatchOf (trim (js '' cd'')) = None \<and>
   (\<exists>es. parseTxtFile (js ''ab \<newline>\<newline> cd'') = Inr es \<and> concat (map entryText es) = js ''abcd'')"
proof -
  have l: "txtLines (js ''ab \<newline>\<newline> cd'') = [js ''ab '', js '' cd'']" by code_simp
  have n: "speakerMatchOf (trim (js ''ab '')) = None" "speakerMatchOf (trim (js '' cd'')) = None"
    by (rule is_none_eq, code_simp)+
  have t: "concat (map trim [js ''ab '', js '' cd'']) = js ''abcd''" by code_simp
  from freeform_concat_texts [of "js ''ab \<newline>\<newline> cd''"] l n t
  show ?thesis by simp
qed

text \<open>C9 fails as stated: for a document of two lines without blank lines, speaker or time
  markers, the texts concatenate to the two lines without the line break between them,
  which is not the document.\<close>

theorem freeform_concat_counterexample:
  "txtLines (js ''ab\<newline>cd'') = [js ''ab'', js ''cd''] \<and>
   Option.is_none (speakerMatchOf (trim (js ''ab''))) \<and>
   Option.is_none (speakerMatchOf (trim (js ''cd''))) \<and>
   Option.is_none (match (js ''ab'') reTime) \<and> Option.is_none (match (js ''cd'') reTime) \<and>
   parseTxtFile (js ''ab\<newline>cd'') =
     Inr [\<lparr>speaker = [], startTime = [], endTime = [], entryText = js ''abcd''\<rparr>] \<and>
   removeBlankLines (js ''ab\<newline>cd'') = js ''ab\<newline>cd'' \<and>
   js ''abcd'' \<noteq> js ''ab\<newline>cd''"
  by code_simp

subsection \<open>C10: An end time comes with a start time\<close>

text \<open>C10.  In every entry that any of the parsers produces, a non-empty \<open>endTime\<close> comes
  with a non-empty \<open>startTime\<close>.\<close>

theorem end_implies_start:
  "parseTxtFile text = Inr es \<or> parseDocxFile text = Inr es \<or> parseVttFile text = Inr es \<Longrightarrow>
   e \<in> set es \<Longrightarrow> endTime e \<noteq> [] \<Longrightarrow> startTime e \<noteq> []"
  using parseTxtFile_inv [of "text"] parseVttFile_inv [of "text" es]
  by (auto simp: parseDocxFile_def parseTxtFile_def txtInv_def entryOK_def vttInv_def list_all_iff)

text \<open>An instance of C10: an entry with a time range.\<close>

theorem end_implies_start_witness:
  "parseTxtFile (js ''A 5:30-6:00 hi'') =
     Inr [\<lparr>speaker = js ''A'', startTime = js ''00:05:30.000'', endTime = js ''00:06:00.000'',
           entryText = js ''hi''\<rparr>] \<and>
   js ''00:06:00.000'' \<noteq> [] \<and> js ''00:05:30.000'' \<noteq> []"
proof -
  let ?e = "\<lparr>speaker = js ''A'', startTime = js ''00:05:30.000'', endTime = js ''00:06:00.000'',
           entryText = js ''hi''\<rparr>"
  have p: "parseTxtFile (js ''A 5:30-6:00 hi'') = Inr [?e]" by code_simp
  have e: "endTime ?e \<noteq> []" by (simp add: js_def)
  from end_implies_start [OF disjI1 [OF p], of ?e] e
  have "startTime ?e \<noteq> []" by simp
  with p e show ?thesis by simp
qed

end
